theory Spec2Isabelle
  imports Main "HOL-Library.Word"
begin

section \<open>The data model\<close>

text \<open>
  The repository holds several variants of the same program. The mapping store is
  taken from the variant with the \<^verbatim>\<open>created_at\<close> column and the lookup by long URL
  (\<^verbatim>\<open>src/unnamed/part_001\<close>); the visit tally \<^verbatim>\<open>visitCountCache\<close>, the tally
  increment of \<^verbatim>\<open>handleRedirect\<close> and \<^verbatim>\<open>writeCacheToDB\<close> are taken from
  \<^verbatim>\<open>src/main.go\<close> (the same code, with log lines, is in \<^verbatim>\<open>src/unnamed/part_002\<close>).
  \<^verbatim>\<open>randomString\<close>, \<^verbatim>\<open>shortURLExists\<close> and \<^verbatim>\<open>getLongURL\<close> are the same in all
  variants up to logging.
\<close>

text \<open>The two fields of \<^verbatim>\<open>Config.ShortURL\<close>; Go's \<^verbatim>\<open>int\<close> is modelled as \<open>int\<close>.\<close>

record config =
  ShortURL_Length :: int
  ShortURL_Charset :: string

text \<open>
  Go \<^verbatim>\<open>error\<close> values returned by \<^verbatim>\<open>database/sql\<close> (\<open>ErrNoRows\<close>,
  \<open>ErrStorage\<close> for any failure of the driver, \<open>ErrConstraint\<close> for a violated
  primary key) and the run-time panics the code can raise.
\<close>

datatype error =
    ErrNoRows
  | ErrStorage
  | ErrConstraint
  | PanicMakeSliceLen
  | PanicDivideByZero
  | PanicIndexOutOfRange

text \<open>
  One row of the table \<^verbatim>\<open>url_mapping\<close>. The program itself only ever inserts rows
  with the defaults (\<^verbatim>\<open>visit_count\<close> 0) and \<^verbatim>\<open>datetime('now')\<close>, so the columns
  carry values rather than NULL. Counters are mathematical integers: Go's \<^verbatim>\<open>int\<close>
  and SQLite's INTEGER both have 64 bits, a bound no run of visits reaches.
\<close>

record url_mapping =
  short_url :: string
  long_url :: string
  visit_count :: int
  created_at :: string

text \<open>The SQL statements the program sends, with their bound parameters.\<close>

datatype stmt =
    SelectShortURL string
  | SelectExists string
  | InsertMapping string string
  | UpdateVisitCount int string
  | SelectLongURL string

text \<open>
  What the program does not decide: whether the \<open>i\<close>-th statement sent to the
  database fails in the driver, what \<^verbatim>\<open>datetime('now')\<close> is when the \<open>i\<close>-th
  statement runs, and the bytes \<^verbatim>\<open>crypto/rand\<close> delivers.
\<close>

record world =
  fails :: "nat \<Rightarrow> bool"
  now :: "nat \<Rightarrow> string"
  entropy :: "nat \<Rightarrow> 8 word"

text \<open>
  The state: the table in rowid order, the statements sent so far (oldest first; a
  record of the traffic, which the program never reads), the global map
  \<^verbatim>\<open>visitCountCache\<close>, and the number of random bytes consumed.
\<close>

record state =
  rows :: "url_mapping list"
  journal :: "stmt list"
  visitCountCache :: "string \<rightharpoonup> int"
  drawn :: nat

section \<open>The database\<close>

definition sent :: "stmt \<Rightarrow> state \<Rightarrow> state" where
  "sent q s = s\<lparr>journal := journal s @ [q]\<rparr>"

text \<open>
  \<^verbatim>\<open>SELECT short_url FROM url_mapping WHERE long_url = ? ORDER BY rowid ASC LIMIT 1\<close>,
  scanned into a string by \<^verbatim>\<open>QueryRow(...).Scan\<close>.
\<close>

definition query_short_url :: "world \<Rightarrow> string \<Rightarrow> state \<Rightarrow> (error + string) \<times> state" where
  "query_short_url w longURL s =
     (if fails w (length (journal s)) then (Inl ErrStorage, sent (SelectShortURL longURL) s)
      else case find (\<lambda>r. long_url r = longURL) (rows s) of
             None \<Rightarrow> (Inl ErrNoRows, sent (SelectShortURL longURL) s)
           | Some r \<Rightarrow> (Inr (short_url r), sent (SelectShortURL longURL) s))"

text \<open>\<^verbatim>\<open>SELECT EXISTS(SELECT 1 FROM url_mapping WHERE short_url=?)\<close>.\<close>

definition query_exists :: "world \<Rightarrow> string \<Rightarrow> state \<Rightarrow> (error + bool) \<times> state" where
  "query_exists w shortURL s =
     (if fails w (length (journal s)) then (Inl ErrStorage, sent (SelectExists shortURL) s)
      else (Inr (shortURL \<in> set (map short_url (rows s))), sent (SelectExists shortURL) s))"

text \<open>
  \<^verbatim>\<open>INSERT INTO url_mapping (short_url, long_url, created_at) VALUES (?, ?, datetime('now'))\<close>;
  \<^verbatim>\<open>short_url\<close> is the primary key, \<^verbatim>\<open>visit_count\<close> takes its default 0.
\<close>

definition exec_insert :: "world \<Rightarrow> string \<Rightarrow> string \<Rightarrow> state \<Rightarrow> (error + unit) \<times> state" where
  "exec_insert w shortURL longURL s =
     (if fails w (length (journal s)) then (Inl ErrStorage, sent (InsertMapping shortURL longURL) s)
      else if shortURL \<in> set (map short_url (rows s))
      then (Inl ErrConstraint, sent (InsertMapping shortURL longURL) s)
      else (Inr (),
            sent (InsertMapping shortURL longURL)
              (s\<lparr>rows := rows s @
                 [\<lparr>short_url = shortURL, long_url = longURL, visit_count = 0,
                   created_at = now w (length (journal s))\<rparr>]\<rparr>)))"

text \<open>\<^verbatim>\<open>UPDATE url_mapping SET visit_count = visit_count + ? WHERE short_url = ?\<close>.\<close>

definition add_visits :: "int \<Rightarrow> string \<Rightarrow> url_mapping \<Rightarrow> url_mapping" where
  "add_visits n shortURL r =
     (if short_url r = shortURL then r\<lparr>visit_count := visit_count r + n\<rparr> else r)"

definition exec_update :: "world \<Rightarrow> int \<Rightarrow> string \<Rightarrow> state \<Rightarrow> (error + unit) \<times> state" where
  "exec_update w n shortURL s =
     (if fails w (length (journal s)) then (Inl ErrStorage, sent (UpdateVisitCount n shortURL) s)
      else (Inr (),
            sent (UpdateVisitCount n shortURL)
              (s\<lparr>rows := map (add_visits n shortURL) (rows s)\<rparr>)))"

text \<open>\<^verbatim>\<open>SELECT long_url FROM url_mapping WHERE short_url = ?\<close>, scanned into a string.\<close>

definition query_long_url :: "world \<Rightarrow> string \<Rightarrow> state \<Rightarrow> (error + string) \<times> state" where
  "query_long_url w shortURL s =
     (if fails w (length (journal s)) then (Inl ErrStorage, sent (SelectLongURL shortURL) s)
      else case find (\<lambda>r. short_url r = shortURL) (rows s) of
             None \<Rightarrow> (Inl ErrNoRows, sent (SelectLongURL shortURL) s)
           | Some r \<Rightarrow> (Inr (long_url r), sent (SelectLongURL shortURL) s))"

section \<open>The code generator and the mapping store\<close>

text \<open>
  The loop of \<^verbatim>\<open>randomString\<close> over the buffer \<open>b\<close> that \<^verbatim>\<open>rand.Read\<close> filled:
  \<^verbatim>\<open>b[i] = charset[b[i] % byte(len(charset))]\<close>. The conversion \<^verbatim>\<open>byte(...)\<close>
  truncates to eight bits; a zero divisor panics, and so would an index outside the
  string.
\<close>

fun randomString_loop :: "string \<Rightarrow> 8 word list \<Rightarrow> error + string" where
  "randomString_loop charset [] = Inr []"
| "randomString_loop charset (x # b) =
     (if (of_nat (length charset) :: 8 word) = 0 then Inl PanicDivideByZero
      else if \<not> unat (x mod of_nat (length charset)) < length charset
      then Inl PanicIndexOutOfRange
      else case randomString_loop charset b of
             Inl e \<Rightarrow> Inl e
           | Inr cs \<Rightarrow> Inr (charset ! unat (x mod of_nat (length charset)) # cs))"

text \<open>
  \<^verbatim>\<open>randomString(length)\<close>: \<^verbatim>\<open>make([]byte, length)\<close> panics on a negative length;
  \<^verbatim>\<open>rand.Read\<close> consumes \<open>length\<close> bytes of the entropy stream.
\<close>

definition rand_Read :: "world \<Rightarrow> nat \<Rightarrow> state \<Rightarrow> 8 word list" where
  "rand_Read w n s = map (entropy w) [drawn s ..< drawn s + n]"

definition randomString :: "world \<Rightarrow> config \<Rightarrow> int \<Rightarrow> state \<Rightarrow> (error + string) \<times> state" where
  "randomString w cfg n s =
     (if n < 0 then (Inl PanicMakeSliceLen, s)
      else (randomString_loop (ShortURL_Charset cfg) (rand_Read w (nat n) s),
            s\<lparr>drawn := drawn s + nat n\<rparr>))"

definition shortURLExists :: "world \<Rightarrow> string \<Rightarrow> state \<Rightarrow> (error + bool) \<times> state" where
  "shortURLExists w shortURL s = query_exists w shortURL s"

definition getLongURL :: "world \<Rightarrow> string \<Rightarrow> state \<Rightarrow> (error + string) \<times> state" where
  "getLongURL w shortURL s = query_long_url w shortURL s"

text \<open>
  The unbounded \<^verbatim>\<open>for { ... }\<close> of \<^verbatim>\<open>createShortURL\<close>. The first argument bounds
  the number of candidates drawn; \<open>None\<close> means the loop has not returned within
  that many rounds.
\<close>

fun createShortURL_loop ::
  "nat \<Rightarrow> world \<Rightarrow> config \<Rightarrow> string \<Rightarrow> state \<Rightarrow> ((error + string) \<times> state) option" where
  "createShortURL_loop 0 w cfg longURL s = None"
| "createShortURL_loop (Suc k) w cfg longURL s =
     (case randomString w cfg (ShortURL_Length cfg) s of
        (Inl e, s1) \<Rightarrow> Some (Inl e, s1)
      | (Inr shortURL, s1) \<Rightarrow>
          (case shortURLExists w shortURL s1 of
             (Inl e, s2) \<Rightarrow> Some (Inl e, s2)
           | (Inr ex, s2) \<Rightarrow>
               if \<not> ex then
                 (case exec_insert w shortURL longURL s2 of
                    (Inl e, s3) \<Rightarrow> Some (Inl e, s3)
                  | (Inr u, s3) \<Rightarrow> Some (Inr shortURL, s3))
               else createShortURL_loop k w cfg longURL s2))"

text \<open>
  \<^verbatim>\<open>createShortURL\<close> of \<^verbatim>\<open>src/unnamed/part_001\<close>: first the query by long URL; a
  hit is returned at once, an error other than \<^verbatim>\<open>sql.ErrNoRows\<close> is returned, and
  otherwise the loop runs. (The earlier variant in \<^verbatim>\<open>src/main.go\<close> is the loop
  alone, with \<^verbatim>\<open>randomString(8)\<close> and an \<^verbatim>\<open>INSERT\<close> that names no
  \<^verbatim>\<open>created_at\<close>.)
\<close>

definition createShortURL ::
  "nat \<Rightarrow> world \<Rightarrow> config \<Rightarrow> string \<Rightarrow> state \<Rightarrow> ((error + string) \<times> state) option" where
  "createShortURL k w cfg longURL s =
     (case query_short_url w longURL s of
        (Inr existingShortURL, s1) \<Rightarrow> Some (Inr existingShortURL, s1)
      | (Inl e, s1) \<Rightarrow>
          if e \<noteq> ErrNoRows then Some (Inl e, s1)
          else createShortURL_loop k w cfg longURL s1)"

section \<open>The visit-count aggregator\<close>

text \<open>
  \<^verbatim>\<open>visitCountCache[shortURL]++\<close>: a missing key reads as Go's zero value and is
  then stored.
\<close>

definition pending :: "(string \<rightharpoonup> int) \<Rightarrow> string \<Rightarrow> int" where
  "pending t c = (case t c of None \<Rightarrow> 0 | Some n \<Rightarrow> n)"

definition record_visit :: "string \<Rightarrow> (string \<rightharpoonup> int) \<Rightarrow> (string \<rightharpoonup> int)" where
  "record_visit c t = t(c \<mapsto> pending t c + 1)"

text \<open>\<^verbatim>\<open>strings.TrimPrefix\<close>.\<close>

definition TrimPrefix :: "string \<Rightarrow> string \<Rightarrow> string" where
  "TrimPrefix s p = (if take (length p) s = p then drop (length p) s else s)"

text \<open>
  \<^verbatim>\<open>handleRedirect\<close> of \<^verbatim>\<open>src/main.go\<close>; the response is the target of
  \<^verbatim>\<open>http.Redirect\<close>.
\<close>

datatype response = Redirect string

definition handleRedirect :: "world \<Rightarrow> string \<Rightarrow> state \<Rightarrow> response \<times> state" where
  "handleRedirect w path s =
     (case getLongURL w (TrimPrefix path ''/r/'') s of
        (Inl e, s1) \<Rightarrow> (Redirect ''/'', s1)
      | (Inr longURL, s1) \<Rightarrow>
          (Redirect longURL,
           s1\<lparr>visitCountCache := record_visit (TrimPrefix path ''/r/'') (visitCountCache s1)\<rparr>))"

text \<open>
  \<^verbatim>\<open>writeCacheToDB\<close>: \<^verbatim>\<open>for shortURL, count := range visitCountCache\<close>. Go visits
  every key of the map once, in an order it does not specify; the order is the
  argument \<open>ks\<close>, and \<open>range_order\<close> says that it enumerates the keys. The body
  reads \<open>count\<close>, sends the update, and on an error logs and continues, else
  assigns 0 to the key it is visiting; so the key set is the same throughout. (The
  branch \<open>None\<close> of the body is for a key that is not in the map, which
  \<^verbatim>\<open>range\<close> never yields.)
\<close>

definition range_order :: "string list \<Rightarrow> (string \<rightharpoonup> int) \<Rightarrow> bool" where
  "range_order ks t = (distinct ks \<and> set ks = dom t)"

definition writeCacheToDB_body :: "world \<Rightarrow> string \<Rightarrow> state \<Rightarrow> state" where
  "writeCacheToDB_body w shortURL s =
     (case visitCountCache s shortURL of
        None \<Rightarrow> s
      | Some count \<Rightarrow>
          (case exec_update w count shortURL s of
             (Inl e, s1) \<Rightarrow> s1
           | (Inr u, s1) \<Rightarrow> s1\<lparr>visitCountCache := (visitCountCache s1)(shortURL \<mapsto> 0)\<rparr>))"

fun writeCacheToDB :: "world \<Rightarrow> string list \<Rightarrow> state \<Rightarrow> state" where
  "writeCacheToDB w [] s = s"
| "writeCacheToDB w (shortURL # ks) s = writeCacheToDB w ks (writeCacheToDB_body w shortURL s)"

section \<open>Notions used to state the properties\<close>

text \<open>The persisted visit count of a short code, if it has a row.\<close>

definition visit_count_of :: "url_mapping list \<Rightarrow> string \<Rightarrow> int option" where
  "visit_count_of rs c = map_option visit_count (find (\<lambda>r. short_url r = c) rs)"





text \<open>
  The columns of a row that identify it and date it, and the statement that a row
  with the columns \<open>x\<close> was inserted, and stamped with the time of its
  \<^verbatim>\<open>INSERT\<close>, by a statement sent after state \<open>s\<close> and before state \<open>s'\<close>.
\<close>

definition stamp :: "url_mapping \<Rightarrow> string \<times> string \<times> string" where
  "stamp r = (short_url r, long_url r, created_at r)"

definition stamped_at_insert ::
  "world \<Rightarrow> state \<Rightarrow> state \<Rightarrow> string \<times> string \<times> string \<Rightarrow> bool" where
  "stamped_at_insert w s s' x =
     (\<exists>i \<in> set [length (journal s) ..< length (journal s')].
        journal s' ! i = InsertMapping (fst x) (fst (snd x)) \<and> snd (snd x) = now w i)"

text \<open>
  From \<open>s\<close> to \<open>s'\<close> statements were only added to the journal, and the table
  kept the identifying columns and the date of every row, in place, and gained only
  rows stamped at their insert.
\<close>

definition table_grows :: "world \<Rightarrow> state \<Rightarrow> state \<Rightarrow> bool" where
  "table_grows w s s' =
     ((\<exists>js. journal s' = journal s @ js) \<and>
      (\<exists>new. map stamp (rows s') = map stamp (rows s) @ new \<and>
         (\<forall>x \<in> set new. stamped_at_insert w s s' x)))"

text \<open>
  The operations a running server performs, one after the other: a call of
  \<^verbatim>\<open>createShortURL\<close> (from \<^verbatim>\<open>handleCreate\<close>), a call of \<^verbatim>\<open>getLongURL\<close>, a request
  served by \<^verbatim>\<open>handleRedirect\<close>, and a tick of the timer, which runs
  \<^verbatim>\<open>writeCacheToDB\<close>. The order of a flush ranges over all lists, which includes
  every order Go may choose. \<open>None\<close> means that a call of \<^verbatim>\<open>createShortURL\<close> has
  not returned within \<open>k\<close> rounds.
\<close>

datatype event =
    Create string
  | Lookup string
  | Visit string
  | Flush "string list"

fun serve :: "nat \<Rightarrow> world \<Rightarrow> config \<Rightarrow> event \<Rightarrow> state \<Rightarrow> state option" where
  "serve k w cfg (Create longURL) s = map_option snd (createShortURL k w cfg longURL s)"
| "serve k w cfg (Lookup shortURL) s = Some (snd (getLongURL w shortURL s))"
| "serve k w cfg (Visit path) s = Some (snd (handleRedirect w path s))"
| "serve k w cfg (Flush ks) s = Some (writeCacheToDB w ks s)"

fun serve_all :: "nat \<Rightarrow> world \<Rightarrow> config \<Rightarrow> event list \<Rightarrow> state \<Rightarrow> state option" where
  "serve_all k w cfg [] s = Some s"
| "serve_all k w cfg (e # es) s =
     (case serve k w cfg e s of
        None \<Rightarrow> None
      | Some s1 \<Rightarrow> serve_all k w cfg es s1)"

section \<open>Concrete inputs\<close>

text \<open>
  A world in which no statement fails, a configuration, an empty state and a state
  with two rows; the closed theorems below evaluate the program on them.
\<close>

definition w0 :: world where
  "w0 = \<lparr>fails = (\<lambda>i. False), now = (\<lambda>i. ''2024-01-01 00:00:00''),
          entropy = (\<lambda>i. of_nat (7 * i + 3))\<rparr>"


definition cfg0 :: config where
  "cfg0 = \<lparr>ShortURL_Length = 4, ShortURL_Charset = ''abc123''\<rparr>"

definition st1 :: state where
  "st1 = \<lparr>rows = [\<lparr>short_url = ''abc1'', long_url = ''https://example.com'', visit_count = 2,
                   created_at = ''2023-12-31 10:00:00''\<rparr>,
                 \<lparr>short_url = ''123a'', long_url = ''https://example.org'', visit_count = 0,
                   created_at = ''2023-12-31 11:00:00''\<rparr>],
          journal = [], visitCountCache = Map.empty, drawn = 0\<rparr>"

text \<open>
  A world in which the first statement, and only the first, fails; and a state with
  two rows and the tally \<^verbatim>\<open>{"abc1": 5, "def2": 0}\<close>.
\<close>

definition w1 :: world where
  "w1 = \<lparr>fails = (\<lambda>i. i = 0), now = (\<lambda>i. ''2024-01-01 00:00:00''),
          entropy = (\<lambda>i. of_nat (7 * i + 3))\<rparr>"

definition st2 :: state where
  "st2 = \<lparr>rows = [\<lparr>short_url = ''abc1'', long_url = ''https://example.com'', visit_count = 2,
                    created_at = ''2023-12-31 10:00:00''\<rparr>,
                  \<lparr>short_url = ''def2'', long_url = ''https://example.org'', visit_count = 7,
                    created_at = ''2023-12-31 11:00:00''\<rparr>],
           journal = [],
           visitCountCache = [''abc1'' \<mapsto> 5, ''def2'' \<mapsto> 0],
           drawn = 0\<rparr>"

section \<open>Random strings\<close>





lemma length_rand_Read: "length (rand_Read w n s) = n"
  by (simp add: rand_Read_def)




section \<open>The mapping store\<close>

lemma sent_simps [simp]:
  "rows (sent q s) = rows s"
  "journal (sent q s) = journal s @ [q]"
  "visitCountCache (sent q s) = visitCountCache s"
  "drawn (sent q s) = drawn s"
  by (simp_all add: sent_def)

lemma randomString_frame:
  assumes "randomString w cfg n s = (res, s1)"
  shows "rows s1 = rows s" and "journal s1 = journal s"
    and "visitCountCache s1 = visitCountCache s"
  using assms by (auto simp: randomString_def split: if_splits)

lemma randomString_loop_shape:
  "randomString_loop charset b = Inr str \<Longrightarrow>
     length str = length b \<and> set str \<subseteq> set charset"
proof (induction b arbitrary: str)
  case Nil
  then show ?case by simp
next
  case (Cons x b)
  from Cons.prems obtain cs where cs: "randomString_loop charset b = Inr cs"
    and idx: "unat (x mod (of_nat (length charset) :: 8 word)) < length charset"
    and str: "str = charset ! unat (x mod (of_nat (length charset) :: 8 word)) # cs"
    by (auto split: if_splits sum.splits)
  from Cons.IH [OF cs] idx str show ?case
    by simp
qed

lemma randomString_shape:
  assumes "randomString w cfg n s = (Inr c, s1)"
  shows "int (length c) = n \<and> set c \<subseteq> set (ShortURL_Charset cfg)"
proof -
  have n: "0 \<le> n"
    using assms by (auto simp: randomString_def split: if_splits)
  then have "randomString_loop (ShortURL_Charset cfg) (rand_Read w (nat n) s) = Inr c"
    using assms by (simp add: randomString_def)
  from randomString_loop_shape [OF this] n show ?thesis
    by (simp add: length_rand_Read)
qed

lemma shortURLExists_frame:
  assumes "shortURLExists w c s = (res, s1)"
  shows "rows s1 = rows s" and "journal s1 = journal s @ [SelectExists c]"
    and "visitCountCache s1 = visitCountCache s"
  using assms by (auto simp: shortURLExists_def query_exists_def split: if_splits)

lemma shortURLExists_Inr:
  "shortURLExists w c s = (Inr b, s1) \<Longrightarrow> b = (c \<in> set (map short_url (rows s)))"
  by (auto simp: shortURLExists_def query_exists_def split: if_splits)

lemma exec_insert_ok:
  "exec_insert w c u s = (Inr x, s1) \<Longrightarrow>
     c \<notin> set (map short_url (rows s)) \<and>
     rows s1 = rows s @ [\<lparr>short_url = c, long_url = u, visit_count = 0,
                          created_at = now w (length (journal s))\<rparr>] \<and>
     journal s1 = journal s @ [InsertMapping c u] \<and>
     visitCountCache s1 = visitCountCache s"
  by (auto simp: exec_insert_def split: if_splits)

lemma exec_insert_err:
  assumes "exec_insert w c u s = (Inl e, s1)"
  shows "rows s1 = rows s" and "visitCountCache s1 = visitCountCache s"
  using assms by (auto simp: exec_insert_def split: if_splits)

text \<open>What a successful run of the loop has done.\<close>

lemma createShortURL_loop_ok:
  assumes "createShortURL_loop k w cfg u s = Some (Inr c, s')"
  shows "c \<notin> set (map short_url (rows s)) \<and>
         (\<exists>i. length (journal s) \<le> i \<and> i < length (journal s') \<and>
              journal s' ! i = InsertMapping c u \<and>
              rows s' = rows s @ [\<lparr>short_url = c, long_url = u, visit_count = 0,
                                   created_at = now w i\<rparr>]) \<and>
         visitCountCache s' = visitCountCache s \<and>
         int (length c) = ShortURL_Length cfg \<and> set c \<subseteq> set (ShortURL_Charset cfg)"
  using assms
proof (induction k arbitrary: s)
  case 0
  then show ?case by simp
next
  case (Suc k)
  obtain r1 s1 where rs: "randomString w cfg (ShortURL_Length cfg) s = (r1, s1)"
    by (cases "randomString w cfg (ShortURL_Length cfg) s")
  note f1 = randomString_frame [OF rs]
  from Suc.prems rs obtain cand where r1: "r1 = Inr cand"
    by (cases r1) auto
  obtain r2 s2 where ex: "shortURLExists w cand s1 = (r2, s2)"
    by (cases "shortURLExists w cand s1")
  note f2 = shortURLExists_frame [OF ex]
  from Suc.prems rs r1 ex obtain b where r2: "r2 = Inr b"
    by (cases r2) auto
  show ?case
  proof (cases b)
    case True
    then have "createShortURL_loop k w cfg u s2 = Some (Inr c, s')"
      using Suc.prems rs r1 ex r2 by simp
    from Suc.IH [OF this] obtain i where i: "length (journal s2) \<le> i" "i < length (journal s')"
      "journal s' ! i = InsertMapping c u"
      "rows s' = rows s2 @ [\<lparr>short_url = c, long_url = u, visit_count = 0,
                                   created_at = now w i\<rparr>]"
      and rest: "c \<notin> set (map short_url (rows s2))" "visitCountCache s' = visitCountCache s2"
        "int (length c) = ShortURL_Length cfg" "set c \<subseteq> set (ShortURL_Charset cfg)"
      by blast
    have "length (journal s) \<le> i \<and> i < length (journal s') \<and>
              journal s' ! i = InsertMapping c u \<and>
              rows s' = rows s @ [\<lparr>short_url = c, long_url = u, visit_count = 0,
                                   created_at = now w i\<rparr>]"
      using i f1 f2 by simp
    then have ex: "\<exists>i. length (journal s) \<le> i \<and> i < length (journal s')
       \<and> journal s' ! i = InsertMapping c u
       \<and> rows s' = rows s @ [\<lparr>short_url = c, long_url = u, visit_count = 0,
                                   created_at = now w i\<rparr>]"
      by blast
    have fresh: "c \<notin> set (map short_url (rows s))"
      using rest(1) f1 f2 by simp
    have cache: "visitCountCache s' = visitCountCache s"
      using rest(2) f1 f2 by simp
    show ?thesis
      using fresh ex cache rest(3,4) by blast
  next
    case False
    obtain r3 s3 where ins: "exec_insert w cand u s2 = (r3, s3)"
      by (cases "exec_insert w cand u s2")
    from Suc.prems rs r1 ex r2 False ins obtain x where r3: "r3 = Inr x"
      and c: "c = cand" and s': "s' = s3"
      by (cases r3) auto
    note f3 = exec_insert_ok [OF ins [unfolded r3]]
    have fresh: "c \<notin> set (map short_url (rows s))"
      using f3 f1 f2 c by simp
    have shape: "int (length c) = ShortURL_Length cfg \<and> set c \<subseteq> set (ShortURL_Charset cfg)"
      using randomString_shape [OF rs [unfolded r1]] c by blast
    have "length (journal s) \<le> length (journal s2) \<and> length (journal s2) < length (journal s')
       \<and> journal s' ! length (journal s2) = InsertMapping c u
       \<and> rows s' = rows s @ [\<lparr>short_url = c, long_url = u, visit_count = 0,
                                   created_at = now w (length (journal s2))\<rparr>]"
      using f1 f2 f3 c s' by (simp add: nth_append)
    then have ex: "\<exists>i. length (journal s) \<le> i \<and> i < length (journal s')
       \<and> journal s' ! i = InsertMapping c u
       \<and> rows s' = rows s @ [\<lparr>short_url = c, long_url = u, visit_count = 0,
                                   created_at = now w i\<rparr>]"
      by blast
    have cache: "visitCountCache s' = visitCountCache s"
      using f1 f2 f3 s' by simp
    show ?thesis
      using fresh ex cache shape by blast
  qed
qed

lemma createShortURL_loop_err:
  assumes "createShortURL_loop k w cfg u s = Some (Inl e, s')"
  shows "rows s' = rows s \<and> visitCountCache s' = visitCountCache s"
  using assms
proof (induction k arbitrary: s)
  case 0
  then show ?case by simp
next
  case (Suc k)
  obtain r1 s1 where rs: "randomString w cfg (ShortURL_Length cfg) s = (r1, s1)"
    by (cases "randomString w cfg (ShortURL_Length cfg) s")
  note f1 = randomString_frame [OF rs]
  show ?case
  proof (cases r1)
    case (Inl e1)
    then show ?thesis using Suc.prems rs f1 by simp
  next
    case (Inr cand)
    obtain r2 s2 where ex: "shortURLExists w cand s1 = (r2, s2)"
      by (cases "shortURLExists w cand s1")
    note f2 = shortURLExists_frame [OF ex]
    show ?thesis
    proof (cases r2)
      case (Inl e2)
      then show ?thesis using Suc.prems rs Inr ex f1 f2 by simp
    next
      case r2: (Inr b)
      show ?thesis
      proof (cases b)
        case True
        then have "createShortURL_loop k w cfg u s2 = Some (Inl e, s')"
          using Suc.prems rs Inr ex r2 by simp
        from Suc.IH [OF this] show ?thesis
          using f1 f2 by simp
      next
        case False
        obtain r3 s3 where ins: "exec_insert w cand u s2 = (r3, s3)"
          by (cases "exec_insert w cand u s2")
        from Suc.prems rs Inr ex r2 False ins obtain e3 where r3: "r3 = Inl e3"
          and s': "s' = s3"
          by (cases r3) auto
        from exec_insert_err [OF ins [unfolded r3]] show ?thesis
          using f1 f2 s' by simp
      qed
    qed
  qed
qed

lemma find_key_distinct:
  assumes "distinct (map f xs)" and "r \<in> set xs"
  shows "find (\<lambda>x. f x = f r) xs = Some r"
  using assms by (induction xs) (auto simp: image_iff)

lemma find_append_new:
  assumes "f r \<notin> set (map f xs)"
  shows "find (\<lambda>x. f x = f r) (xs @ [r]) = Some r"
  using assms by (induction xs) auto

lemma query_short_url_frame:
  assumes "query_short_url w u s = (res, s1)"
  shows "s1 = sent (SelectShortURL u) s"
  using assms by (auto simp: query_short_url_def split: if_splits option.splits)














text \<open>
  Claim C7. When \<^verbatim>\<open>createShortURL(u)\<close> returns the short code \<open>c\<close> without error,
  on a table whose primary key \<^verbatim>\<open>short_url\<close> is unique, a following
  \<^verbatim>\<open>getLongURL(c)\<close> whose query does not fail returns \<open>u\<close>.
\<close>

theorem create_then_lookup:
  assumes "createShortURL k w cfg u s = Some (Inr c, s')"
    and "distinct (map short_url (rows s))"
    and "\<not> fails w (length (journal s'))"
  shows "getLongURL w c s' = (Inr u, sent (SelectLongURL c) s')"
proof -
  obtain res sq where q: "query_short_url w u s = (res, sq)"
    by (cases "query_short_url w u s")
  have sq: "sq = sent (SelectShortURL u) s"
    using q by (rule query_short_url_frame)
  have "find (\<lambda>r. short_url r = c) (rows s') \<noteq> None
        \<and> (\<forall>r. find (\<lambda>r. short_url r = c) (rows s') = Some r \<longrightarrow> long_url r = u)"
  proof (cases "find (\<lambda>r. long_url r = u) (rows s)")
    case None
    then have "createShortURL_loop k w cfg u sq = Some (Inr c, s')"
      using assms(1) q by (auto simp: createShortURL_def query_short_url_def split: if_splits)
    from createShortURL_loop_ok [OF this] obtain i where
      fresh: "c \<notin> set (map short_url (rows sq))"
      and rows': "rows s' = rows sq @ [\<lparr>short_url = c, long_url = u, visit_count = 0,
                                   created_at = now w i\<rparr>]"
      by blast
    have "find (\<lambda>x. short_url x = short_url \<lparr>short_url = c, long_url = u, visit_count = 0,
                                   created_at = now w i\<rparr>) (rows s')
            = Some \<lparr>short_url = c, long_url = u, visit_count = 0, created_at = now w i\<rparr>"
      unfolding rows' using fresh by (intro find_append_new) simp
    then show ?thesis by simp
  next
    case (Some r)
    then have r: "r \<in> set (rows s)" "long_url r = u"
      by (auto simp: find_Some_iff)
    have c: "c = short_url r" and s': "s' = sq"
      using assms(1) q Some by (auto simp: createShortURL_def query_short_url_def split: if_splits)
    have "find (\<lambda>x. short_url x = short_url r) (rows s) = Some r"
      using assms(2) r(1) by (rule find_key_distinct)
    then show ?thesis
      using c s' sq r(2) by simp
  qed
  then show ?thesis
    using assms(3) by (auto simp: getLongURL_def query_long_url_def)
qed

text \<open>
  The theorem on the table with two rows: the call mints \<^verbatim>\<open>bc12\<close>, and the lookup
  of \<^verbatim>\<open>bc12\<close> returns the long URL.
\<close>

theorem create_then_lookup_witness:
  "\<exists>s'. createShortURL 3 w0 cfg0 ''https://example.net'' st1 = Some (Inr ''bc12'', s')
      \<and> distinct (map short_url (rows st1))
      \<and> \<not> fails w0 (length (journal s'))
      \<and> getLongURL w0 ''bc12'' s' = (Inr ''https://example.net'', sent (SelectLongURL ''bc12'') s')"
proof -
  have "map_option fst (createShortURL 3 w0 cfg0 ''https://example.net'' st1) = Some (Inr ''bc12'')"
    by code_simp
  then obtain s' where run: "createShortURL 3 w0 cfg0 ''https://example.net'' st1 = Some (Inr ''bc12'', s')"
    by (cases "createShortURL 3 w0 cfg0 ''https://example.net'' st1") auto
  have d: "distinct (map short_url (rows st1))"
    by (simp add: st1_def)
  have nf: "\<not> fails w0 (length (journal s'))"
    by (simp add: w0_def)
  show ?thesis
    using create_then_lookup [OF run d nf] run d nf by blast
qed

section \<open>What a flush does\<close>

lemma visit_count_of_add_visits:
  "visit_count_of (map (add_visits n k) rs) c =
     (if c = k then map_option (\<lambda>v. v + n) (visit_count_of rs c) else visit_count_of rs c)"
  by (induction rs) (auto simp: visit_count_of_def add_visits_def)

lemma stamp_add_visits: "stamp (add_visits n k r) = stamp r"
  by (simp add: stamp_def add_visits_def)

lemma body_absent:
  "visitCountCache s k = None \<Longrightarrow> writeCacheToDB_body w k s = s"
  by (simp add: writeCacheToDB_body_def)

lemma body_present:
  assumes "visitCountCache s k = Some n"
  shows "journal (writeCacheToDB_body w k s) = journal s @ [UpdateVisitCount n k]"
    and "visitCountCache (writeCacheToDB_body w k s) =
           (if fails w (length (journal s)) then visitCountCache s
            else (visitCountCache s)(k \<mapsto> 0))"
    and "rows (writeCacheToDB_body w k s) =
           (if fails w (length (journal s)) then rows s else map (add_visits n k) (rows s))"
    and "drawn (writeCacheToDB_body w k s) = drawn s"
  using assms by (simp_all add: writeCacheToDB_body_def exec_update_def)

lemma body_dom: "dom (visitCountCache (writeCacheToDB_body w k s)) = dom (visitCountCache s)"
proof (cases "visitCountCache s k")
  case None
  then show ?thesis by (simp add: body_absent)
next
  case (Some n)
  then show ?thesis by (auto simp: body_present(2) [OF Some])
qed

lemma body_cache_other:
  "c \<noteq> k \<Longrightarrow> visitCountCache (writeCacheToDB_body w k s) c = visitCountCache s c"
proof (cases "visitCountCache s k")
  case None
  then show ?thesis by (simp add: body_absent)
next
  case (Some n)
  assume "c \<noteq> k"
  then show ?thesis by (simp add: body_present(2) [OF Some])
qed

lemma body_visit_count_other:
  "c \<noteq> k \<Longrightarrow> visit_count_of (rows (writeCacheToDB_body w k s)) c = visit_count_of (rows s) c"
proof (cases "visitCountCache s k")
  case None
  then show ?thesis by (simp add: body_absent)
next
  case (Some n)
  assume "c \<noteq> k"
  then show ?thesis
    by (simp add: body_present(3) [OF Some] visit_count_of_add_visits)
qed

lemma body_stamp: "map stamp (rows (writeCacheToDB_body w k s)) = map stamp (rows s)"
proof (cases "visitCountCache s k")
  case None
  then show ?thesis by (simp add: body_absent)
next
  case (Some n)
  then show ?thesis
    by (simp add: body_present(3) [OF Some] stamp_add_visits comp_def)
qed

lemma flush_dom: "dom (visitCountCache (writeCacheToDB w ks s)) = dom (visitCountCache s)"
  by (induction ks arbitrary: s) (simp_all add: body_dom)

lemma flush_cache_other:
  "c \<notin> set ks \<Longrightarrow> visitCountCache (writeCacheToDB w ks s) c = visitCountCache s c"
  by (induction ks arbitrary: s) (simp_all add: body_cache_other)

lemma flush_visit_count_other:
  "c \<notin> set ks \<Longrightarrow>
     visit_count_of (rows (writeCacheToDB w ks s)) c = visit_count_of (rows s) c"
  by (induction ks arbitrary: s) (simp_all add: body_visit_count_other)

lemma flush_stamp: "map stamp (rows (writeCacheToDB w ks s)) = map stamp (rows s)"
  by (induction ks arbitrary: s) (simp_all add: body_stamp)

text \<open>The traffic of a flush: one update per key, in the order of the iteration.\<close>

lemma flush_journal:
  assumes "distinct ks" and "set ks \<subseteq> dom (visitCountCache s)"
  shows "journal (writeCacheToDB w ks s) =
           journal s @ map (\<lambda>k. UpdateVisitCount (pending (visitCountCache s) k) k) ks"
  using assms
proof (induction ks arbitrary: s)
  case Nil
  show ?case by simp
next
  case (Cons k ks)
  from Cons.prems obtain n where n: "visitCountCache s k = Some n"
    by auto
  let ?s1 = "writeCacheToDB_body w k s"
  have sub: "set ks \<subseteq> dom (visitCountCache ?s1)"
    using Cons.prems by (simp add: body_dom)
  have same: "pending (visitCountCache ?s1) c = pending (visitCountCache s) c"
    if "c \<in> set ks" for c
  proof -
    have "c \<noteq> k"
      using that Cons.prems(1) by auto
    then have "visitCountCache ?s1 c = visitCountCache s c"
      by (rule body_cache_other)
    then show ?thesis
      by (simp add: pending_def)
  qed
  have "journal (writeCacheToDB w ks ?s1) =
          journal ?s1 @ map (\<lambda>k. UpdateVisitCount (pending (visitCountCache ?s1) k) k) ks"
    using Cons.prems sub by (intro Cons.IH) simp_all
  also have "map (\<lambda>k. UpdateVisitCount (pending (visitCountCache ?s1) k) k) ks =
             map (\<lambda>k. UpdateVisitCount (pending (visitCountCache s) k) k) ks"
    using same by simp
  finally show ?case
    by (simp add: body_present(1) [OF n] pending_def n)
qed

text \<open>
  The entry visited at position \<open>i\<close>: its update is statement number
  \<open>length (journal s) + i\<close>; when that statement fails the entry and its row are
  as before, otherwise the entry is 0 and the row has received the count.
\<close>

lemma flush_entry:
  assumes "distinct ks" and "set ks \<subseteq> dom (visitCountCache s)" and "i < length ks"
  shows "visitCountCache (writeCacheToDB w ks s) (ks ! i) =
           (if fails w (length (journal s) + i) then visitCountCache s (ks ! i) else Some 0)
       \<and> visit_count_of (rows (writeCacheToDB w ks s)) (ks ! i) =
           (if fails w (length (journal s) + i) then visit_count_of (rows s) (ks ! i)
            else map_option (\<lambda>v. v + pending (visitCountCache s) (ks ! i))
                   (visit_count_of (rows s) (ks ! i)))"
  using assms
proof (induction ks arbitrary: s i)
  case Nil
  then show ?case by simp
next
  case (Cons k ks)
  from Cons.prems obtain n where n: "visitCountCache s k = Some n"
    by auto
  let ?s1 = "writeCacheToDB_body w k s"
  have sub: "set ks \<subseteq> dom (visitCountCache ?s1)"
    using Cons.prems by (simp add: body_dom)
  have d: "distinct ks" and k: "k \<notin> set ks"
    using Cons.prems by simp_all
  show ?case
  proof (cases i)
    case 0
    have "visitCountCache (writeCacheToDB w ks ?s1) k = visitCountCache ?s1 k"
      using k by (rule flush_cache_other)
    moreover have "visit_count_of (rows (writeCacheToDB w ks ?s1)) k = visit_count_of (rows ?s1) k"
      using k by (rule flush_visit_count_other)
    ultimately show ?thesis
      using 0 n by (simp add: body_present [OF n] visit_count_of_add_visits pending_def)
  next
    case (Suc j)
    then have j: "j < length ks"
      using Cons.prems by simp
    then have ne: "ks ! j \<noteq> k"
      using k by auto
    have len: "length (journal ?s1) = Suc (length (journal s))"
      by (simp add: body_present(1) [OF n])
    have "visitCountCache ?s1 (ks ! j) = visitCountCache s (ks ! j)"
      using ne by (rule body_cache_other)
    moreover have "visit_count_of (rows ?s1) (ks ! j) = visit_count_of (rows s) (ks ! j)"
      using ne by (rule body_visit_count_other)
    ultimately show ?thesis
      using Cons.IH [OF d sub j] Suc len by (simp add: pending_def)
  qed
qed

lemma record_visit_dom: "dom (record_visit c t) = insert c (dom t)"
  by (simp add: record_visit_def)




section \<open>Visits and flushes\<close>

lemma handleRedirect_records_visit:
  assumes "find (\<lambda>r. short_url r = c) (rows s) = Some r"
    and "\<not> fails w (length (journal s))"
  shows "handleRedirect w (''/r/'' @ c) s =
           (Redirect (long_url r),
            (sent (SelectLongURL c) s)\<lparr>visitCountCache := record_visit c (visitCountCache s)\<rparr>)"
  using assms by (simp add: handleRedirect_def TrimPrefix_def getLongURL_def query_long_url_def)

text \<open>
  Claim C2 fails on the code: \<^verbatim>\<open>writeCacheToDB\<close> has no test of \<open>count\<close>, and
  sends an update for every key of the tally. For the tally
  \<^verbatim>\<open>{"abc1": 5, "def2": 0}\<close> it sends two updates, one of them adding 0 to
  \<^verbatim>\<open>def2\<close>, in either order of the iteration; the tally afterwards is
  \<^verbatim>\<open>{"abc1": 0, "def2": 0}\<close> and the visit count of \<^verbatim>\<open>def2\<close> is the same.
\<close>

theorem flush_updates_zero_entry:
  "range_order [''abc1'', ''def2''] (visitCountCache st2)
   \<and> journal (writeCacheToDB w0 [''abc1'', ''def2''] st2)
       = [UpdateVisitCount 5 ''abc1'', UpdateVisitCount 0 ''def2'']
   \<and> journal (writeCacheToDB w0 [''def2'', ''abc1''] st2)
       = [UpdateVisitCount 0 ''def2'', UpdateVisitCount 5 ''abc1'']
   \<and> visitCountCache (writeCacheToDB w0 [''abc1'', ''def2''] st2)
       = [''abc1'' \<mapsto> 0, ''def2'' \<mapsto> 0]
   \<and> visit_count_of (rows (writeCacheToDB w0 [''abc1'', ''def2''] st2)) ''abc1'' = Some 7
   \<and> visit_count_of (rows (writeCacheToDB w0 [''abc1'', ''def2''] st2)) ''def2'' = Some 7"
  by (auto simp: range_order_def st2_def w0_def writeCacheToDB_body_def exec_update_def
      sent_def add_visits_def visit_count_of_def)



text \<open>
  Claim C5. A flush sends one update for every key of the tally, in the order of
  the iteration, whether or not earlier updates have failed. The entry whose
  update fails keeps its pending count, and the visit count of its row is as
  before; the entry whose update succeeds is reset to 0, and its row has received
  the count.
\<close>

theorem flush_failure_is_per_entry:
  assumes "range_order ks (visitCountCache s)"
  shows "journal (writeCacheToDB w ks s) =
           journal s @ map (\<lambda>k. UpdateVisitCount (pending (visitCountCache s) k) k) ks
       \<and> (\<forall>i \<in> set [0 ..< length ks].
            visitCountCache (writeCacheToDB w ks s) (ks ! i) =
              (if fails w (length (journal s) + i) then visitCountCache s (ks ! i) else Some 0)
          \<and> visit_count_of (rows (writeCacheToDB w ks s)) (ks ! i) =
              (if fails w (length (journal s) + i) then visit_count_of (rows s) (ks ! i)
               else map_option (\<lambda>v. v + pending (visitCountCache s) (ks ! i))
                      (visit_count_of (rows s) (ks ! i))))"
proof -
  have d: "distinct ks" and sub: "set ks \<subseteq> dom (visitCountCache s)"
    using assms by (simp_all add: range_order_def)
  show ?thesis
    using flush_journal [OF d sub] flush_entry [OF d sub] by simp
qed

text \<open>
  The theorem on the tally \<^verbatim>\<open>{"abc1": 5, "def2": 0}\<close> when the first update
  fails: both updates are sent, \<^verbatim>\<open>abc1\<close> keeps its 5 pending visits and its
  visit count 2.
\<close>

theorem flush_failure_is_per_entry_witness:
  "range_order [''abc1'', ''def2''] (visitCountCache st2)
   \<and> journal (writeCacheToDB w1 [''abc1'', ''def2''] st2)
       = [UpdateVisitCount 5 ''abc1'', UpdateVisitCount 0 ''def2'']
   \<and> visitCountCache (writeCacheToDB w1 [''abc1'', ''def2''] st2) ''abc1'' = Some 5
   \<and> visitCountCache (writeCacheToDB w1 [''abc1'', ''def2''] st2) ''def2'' = Some 0
   \<and> visit_count_of (rows (writeCacheToDB w1 [''abc1'', ''def2''] st2)) ''abc1'' = Some 2"
proof -
  have r: "range_order [''abc1'', ''def2''] (visitCountCache st2)"
    by (auto simp: range_order_def st2_def)
  show ?thesis
    using flush_failure_is_per_entry [OF r, of w1] r
    by (simp add: st2_def w1_def pending_def visit_count_of_def)
qed

section \<open>Runs of the server\<close>

lemma table_grows_same:
  assumes "map stamp (rows s') = map stamp (rows s)" and "journal s' = journal s @ js"
  shows "table_grows w s s'"
  unfolding table_grows_def using assms by auto

lemma stamped_at_insert_mono:
  assumes "stamped_at_insert w s1 s2 x"
    and "length (journal s) \<le> length (journal s1)"
    and "journal s3 = journal s2 @ js"
  shows "stamped_at_insert w s s3 x"
proof -
  from assms(1) obtain i where i: "length (journal s1) \<le> i" "i < length (journal s2)"
    "journal s2 ! i = InsertMapping (fst x) (fst (snd x))" "snd (snd x) = now w i"
    by (auto simp: stamped_at_insert_def)
  have "journal s3 ! i = journal s2 ! i"
    using i(2) assms(3) by (simp add: nth_append)
  moreover have "length (journal s) \<le> i" "i < length (journal s3)"
    using i(1,2) assms(2,3) by simp_all
  ultimately show ?thesis
    using i(3,4) by (auto simp: stamped_at_insert_def)
qed

lemma table_grows_trans:
  assumes "table_grows w s s1" and "table_grows w s1 s2"
  shows "table_grows w s s2"
proof -
  from assms(1) obtain js1 new1 where 1: "journal s1 = journal s @ js1"
    "map stamp (rows s1) = map stamp (rows s) @ new1"
    "\<forall>x \<in> set new1. stamped_at_insert w s s1 x"
    unfolding table_grows_def by blast
  from assms(2) obtain js2 new2 where 2: "journal s2 = journal s1 @ js2"
    "map stamp (rows s2) = map stamp (rows s1) @ new2"
    "\<forall>x \<in> set new2. stamped_at_insert w s1 s2 x"
    unfolding table_grows_def by blast
  have j: "journal s2 = journal s @ (js1 @ js2)"
    using 1(1) 2(1) by simp
  have r: "map stamp (rows s2) = map stamp (rows s) @ (new1 @ new2)"
    using 1(2) 2(2) by simp
  have "stamped_at_insert w s s2 x" if "x \<in> set (new1 @ new2)" for x
  proof (cases "x \<in> set new1")
    case True
    then have "stamped_at_insert w s s1 x"
      using 1(3) by blast
    then show ?thesis
      by (rule stamped_at_insert_mono [where js = js2]) (simp_all add: 2(1))
  next
    case False
    then have "stamped_at_insert w s1 s2 x"
      using that 2(3) by auto
    then show ?thesis
      by (rule stamped_at_insert_mono [where js = "[]"]) (simp_all add: 1(1))
  qed
  then show ?thesis
    unfolding table_grows_def using j r by blast
qed

lemma exec_insert_grows:
  assumes "exec_insert w c u s = (res, s1)"
  shows "table_grows w s s1"
proof (cases res)
  case (Inl e)
  then have "rows s1 = rows s" "journal s1 = journal s @ [InsertMapping c u]"
    using assms by (auto simp: exec_insert_def split: if_splits)
  then show ?thesis
    by (intro table_grows_same) simp_all
next
  case (Inr x)
  from exec_insert_ok [OF assms [unfolded Inr]]
  have r: "rows s1 = rows s @ [\<lparr>short_url = c, long_url = u, visit_count = 0,
                          created_at = now w (length (journal s))\<rparr>]"
    and j: "journal s1 = journal s @ [InsertMapping c u]"
    by simp_all
  have "stamped_at_insert w s s1 (c, u, now w (length (journal s)))"
    unfolding stamped_at_insert_def using j
    by (intro bexI [where x = "length (journal s)"]) simp_all
  then show ?thesis
    unfolding table_grows_def using r j by (simp add: stamp_def)
qed

lemma createShortURL_loop_grows:
  assumes "createShortURL_loop k w cfg u s = Some (res, s')"
  shows "table_grows w s s'"
  using assms
proof (induction k arbitrary: s)
  case 0
  then show ?case by simp
next
  case (Suc k)
  obtain r1 s1 where rs: "randomString w cfg (ShortURL_Length cfg) s = (r1, s1)"
    by (cases "randomString w cfg (ShortURL_Length cfg) s")
  note f1 = randomString_frame [OF rs]
  have g1: "table_grows w s s1"
    using f1 by (intro table_grows_same [where js = "[]"]) simp_all
  show ?case
  proof (cases r1)
    case (Inl e1)
    then show ?thesis using Suc.prems rs g1 by simp
  next
    case (Inr cand)
    obtain r2 s2 where ex: "shortURLExists w cand s1 = (r2, s2)"
      by (cases "shortURLExists w cand s1")
    note f2 = shortURLExists_frame [OF ex]
    have "table_grows w s1 s2"
      using f2 by (intro table_grows_same) simp_all
    with g1 have g2: "table_grows w s s2"
      by (rule table_grows_trans)
    show ?thesis
    proof (cases r2)
      case (Inl e2)
      then show ?thesis using Suc.prems rs Inr ex g2 by simp
    next
      case r2: (Inr b)
      show ?thesis
      proof (cases b)
        case True
        then have "createShortURL_loop k w cfg u s2 = Some (res, s')"
          using Suc.prems rs Inr ex r2 by simp
        from g2 Suc.IH [OF this] show ?thesis
          by (rule table_grows_trans)
      next
        case False
        obtain r3 s3 where ins: "exec_insert w cand u s2 = (r3, s3)"
          by (cases "exec_insert w cand u s2")
        have "s' = s3"
          using Suc.prems rs Inr ex r2 False ins by (cases r3) auto
        with exec_insert_grows [OF ins] g2 show ?thesis
          using table_grows_trans by blast
      qed
    qed
  qed
qed

lemma createShortURL_grows:
  assumes "createShortURL k w cfg u s = Some (res, s')"
  shows "table_grows w s s'" and "visitCountCache s' = visitCountCache s"
proof -
  let ?sq = "sent (SelectShortURL u) s"
  have gq: "table_grows w s ?sq"
    by (intro table_grows_same) simp_all
  have "s' = ?sq \<or> createShortURL_loop k w cfg u ?sq = Some (res, s')"
    using assms
    by (auto simp: createShortURL_def query_short_url_def split: if_splits option.splits)
  then show "table_grows w s s'"
    using gq createShortURL_loop_grows table_grows_trans by blast
  have "s' = ?sq \<or> createShortURL_loop k w cfg u ?sq = Some (res, s')"
    by fact
  then show "visitCountCache s' = visitCountCache s"
    using createShortURL_loop_ok [of k w cfg u ?sq _ s']
      createShortURL_loop_err [of k w cfg u ?sq _ s']
    by (cases res) auto
qed

lemma flush_journal_prefix: "\<exists>js. journal (writeCacheToDB w ks s) = journal s @ js"
proof (induction ks arbitrary: s)
  case Nil
  show ?case by simp
next
  case (Cons k ks)
  have "\<exists>js. journal (writeCacheToDB_body w k s) = journal s @ js"
    by (cases "visitCountCache s k") (simp_all add: body_absent body_present(1))
  with Cons [of "writeCacheToDB_body w k s"] show ?case
    by auto
qed

lemma flush_grows: "table_grows w s (writeCacheToDB w ks s)"
  using flush_journal_prefix [of w ks s] flush_stamp [of w ks s]
  by (auto intro: table_grows_same)

lemma getLongURL_frame:
  "snd (getLongURL w c s) = sent (SelectLongURL c) s"
  by (simp add: getLongURL_def query_long_url_def split: option.splits)

lemma handleRedirect_frame:
  "rows (snd (handleRedirect w path s)) = rows s"
  "journal (snd (handleRedirect w path s)) = journal s @ [SelectLongURL (TrimPrefix path ''/r/'')]"
  "dom (visitCountCache s) \<subseteq> dom (visitCountCache (snd (handleRedirect w path s)))"
  by (auto simp: handleRedirect_def getLongURL_def query_long_url_def record_visit_def
      split: option.splits)

lemma serve_grows:
  assumes "serve k w cfg e s = Some s'"
  shows "table_grows w s s'"
    and "dom (visitCountCache s) \<subseteq> dom (visitCountCache s')"
proof -
  show "table_grows w s s'"
  proof (cases e)
    case (Create u)
    then obtain res where "createShortURL k w cfg u s = Some (res, s')"
      using assms by auto
    then show ?thesis by (rule createShortURL_grows)
  next
    case (Lookup c)
    then have "s' = sent (SelectLongURL c) s"
      using assms by (simp add: getLongURL_frame)
    then show ?thesis by (intro table_grows_same) simp_all
  next
    case (Visit path)
    then have "s' = snd (handleRedirect w path s)"
      using assms by simp
    then show ?thesis
      by (intro table_grows_same) (simp_all add: handleRedirect_frame)
  next
    case (Flush ks)
    then show ?thesis
      using assms flush_grows by auto
  qed
  show "dom (visitCountCache s) \<subseteq> dom (visitCountCache s')"
  proof (cases e)
    case (Create u)
    then obtain res where "createShortURL k w cfg u s = Some (res, s')"
      using assms by auto
    then show ?thesis by (simp add: createShortURL_grows(2))
  next
    case (Lookup c)
    then show ?thesis
      using assms by (auto simp: getLongURL_frame)
  next
    case (Visit path)
    then have "s' = snd (handleRedirect w path s)"
      using assms by simp
    then show ?thesis
      by (simp add: handleRedirect_frame(3))
  next
    case (Flush ks)
    then have "s' = writeCacheToDB w ks s"
      using assms by simp
    then show ?thesis
      by (simp add: flush_dom)
  qed
qed

lemma serve_all_grows:
  assumes "serve_all k w cfg es s = Some s'"
  shows "table_grows w s s' \<and> dom (visitCountCache s) \<subseteq> dom (visitCountCache s')"
  using assms
proof (induction es arbitrary: s)
  case Nil
  then have "s' = s" by simp
  then show ?case
    by (auto intro: table_grows_same [where js = "[]"])
next
  case (Cons e es)
  then obtain s1 where 1: "serve k w cfg e s = Some s1" and 2: "serve_all k w cfg es s1 = Some s'"
    by (auto split: option.splits)
  from serve_grows [OF 1] Cons.IH [OF 2] show ?case
    using table_grows_trans by blast
qed



text \<open>
  Claim C10. The tally increment stores its key; a flush leaves the key set of the
  tally as it is; over any run of the server the key set only grows; and after a
  flush all of whose updates succeed every key is still there, with pending count
  0.
\<close>

theorem tally_keys_only_grow:
  "dom (record_visit c t) = insert c (dom t)
   \<and> dom (visitCountCache (writeCacheToDB w ks s)) = dom (visitCountCache s)
   \<and> (\<forall>s'. serve_all k w cfg es s = Some s' \<longrightarrow>
         dom (visitCountCache s) \<subseteq> dom (visitCountCache s'))
   \<and> (range_order ks (visitCountCache s)
        \<and> (\<forall>i \<in> set [0 ..< length ks]. \<not> fails w (length (journal s) + i)) \<longrightarrow>
       (\<forall>c' \<in> dom (visitCountCache s). visitCountCache (writeCacheToDB w ks s) c' = Some 0))"
proof (intro conjI)
  show "dom (record_visit c t) = insert c (dom t)"
    by (rule record_visit_dom)
  show "dom (visitCountCache (writeCacheToDB w ks s)) = dom (visitCountCache s)"
    by (rule flush_dom)
  show "\<forall>s'. serve_all k w cfg es s = Some s' \<longrightarrow>
         dom (visitCountCache s) \<subseteq> dom (visitCountCache s')"
    using serve_all_grows by blast
  show "range_order ks (visitCountCache s)
        \<and> (\<forall>i \<in> set [0 ..< length ks]. \<not> fails w (length (journal s) + i)) \<longrightarrow>
       (\<forall>c' \<in> dom (visitCountCache s). visitCountCache (writeCacheToDB w ks s) c' = Some 0)"
  proof (intro impI ballI)
    fix c'
    assume a: "range_order ks (visitCountCache s)
        \<and> (\<forall>i \<in> set [0 ..< length ks]. \<not> fails w (length (journal s) + i))"
      and c': "c' \<in> dom (visitCountCache s)"
    have d: "distinct ks" and sub: "set ks \<subseteq> dom (visitCountCache s)"
      and keys: "set ks = dom (visitCountCache s)"
      using a by (simp_all add: range_order_def)
    have "c' \<in> set ks"
      using c' keys by simp
    then obtain i where i: "i < length ks" "ks ! i = c'"
      unfolding in_set_conv_nth by blast
    have "\<not> fails w (length (journal s) + i)"
      using a i(1) by simp
    with flush_entry [OF d sub i(1), of w] i(2)
    show "visitCountCache (writeCacheToDB w ks s) c' = Some 0"
      by simp
  qed
qed

text \<open>
  The theorem on a run that visits \<^verbatim>\<open>abc1\<close> twice and flushes: the key
  \<^verbatim>\<open>abc1\<close> has entered the tally and is still there, with pending count 0.
\<close>

theorem tally_keys_only_grow_witness:
  "dom (record_visit ''abc1'' Map.empty) = {''abc1''}
   \<and> (\<exists>s'. serve_all 0 w0 cfg0 [Visit ''/r/abc1'', Visit ''/r/abc1'', Flush [''abc1'']] st1
              = Some s'
          \<and> dom (visitCountCache st1) \<subseteq> dom (visitCountCache s')
          \<and> visitCountCache s' ''abc1'' = Some 0
          \<and> visit_count_of (rows s') ''abc1'' = Some 4)
   \<and> range_order [''abc1'', ''def2''] (visitCountCache st2)
   \<and> visitCountCache (writeCacheToDB w0 [''abc1'', ''def2''] st2) ''abc1'' = Some 0
   \<and> visitCountCache (writeCacheToDB w0 [''abc1'', ''def2''] st2) ''def2'' = Some 0"
proof -
  have r: "range_order [''abc1'', ''def2''] (visitCountCache st2)"
    by (auto simp: range_order_def st2_def)
  have vals: "map_option (\<lambda>s'. (visitCountCache s' ''abc1'', visit_count_of (rows s') ''abc1''))
      (serve_all 0 w0 cfg0 [Visit ''/r/abc1'', Visit ''/r/abc1'', Flush [''abc1'']] st1)
      = Some (Some 0, Some 4)"
    by code_simp
  then obtain s' where s': "serve_all 0 w0 cfg0 [Visit ''/r/abc1'', Visit ''/r/abc1'', Flush [''abc1'']] st1
        = Some s'" "visitCountCache s' ''abc1'' = Some 0" "visit_count_of (rows s') ''abc1'' = Some 4"
    by (cases "serve_all 0 w0 cfg0 [Visit ''/r/abc1'', Visit ''/r/abc1'', Flush [''abc1'']] st1") auto
  from tally_keys_only_grow [of "''abc1''" Map.empty w0 "[''abc1'', ''def2'']" st2
      0 cfg0 "[]"]
  have a: "dom (record_visit ''abc1'' Map.empty) = {''abc1''}"
    and c: "\<forall>c' \<in> dom (visitCountCache st2).
              visitCountCache (writeCacheToDB w0 [''abc1'', ''def2''] st2) c' = Some 0"
    using r by (simp_all add: w0_def)
  from tally_keys_only_grow [of "''abc1''" Map.empty w0 "[]" st1
      0 cfg0 "[Visit ''/r/abc1'', Visit ''/r/abc1'', Flush [''abc1'']]"]
  have d: "dom (visitCountCache st1) \<subseteq> dom (visitCountCache s')"
    using s'(1) by blast
  have e: "visitCountCache (writeCacheToDB w0 [''abc1'', ''def2''] st2) ''abc1'' = Some 0"
    "visitCountCache (writeCacheToDB w0 [''abc1'', ''def2''] st2) ''def2'' = Some 0"
    using c by (simp_all add: st2_def)
  show ?thesis
    using a s' d r e by blast
qed

end
